theory Spec2Isabelle
  imports Main
begin

section \<open>The Go library functions used by the request parser\<close>

text \<open>
  A Go string is a sequence of bytes, so it is modelled as a \<open>string\<close> (a list of
  8-bit characters). The parser calls four library functions: \<^verbatim>\<open>strings.TrimSpace\<close>,
  \<^verbatim>\<open>strings.Split\<close>, \<^verbatim>\<open>strings.SplitN\<close> and \<^verbatim>\<open>bufio.Reader.ReadString\<close>. They are
  modelled here after their documentation.
\<close>

subsection \<open>strings.TrimSpace\<close>

text \<open>
  \<^verbatim>\<open>TrimSpace\<close> removes all leading and trailing white space, as defined by Unicode.
  The string is read as UTF-8, and a rune is white space exactly when it is one of
  U+0009..U+000D, U+0020, U+0085, U+00A0, U+1680, U+2000..U+200A, U+2028, U+2029,
  U+202F, U+205F, U+3000. The decoder accepts only the shortest encoding of a rune, so
  the string starts (ends) with a white-space rune exactly when it starts (ends) with
  one of the byte sequences below.
\<close>

definition spaceRunes :: "string list" where
  "spaceRunes =
    [[CHR 0x09], [CHR 0x0A], [CHR 0x0B], [CHR 0x0C], [CHR 0x0D], [CHR 0x20],
     [CHR 0xC2, CHR 0x85], [CHR 0xC2, CHR 0xA0],
     [CHR 0xE1, CHR 0x9A, CHR 0x80],
     [CHR 0xE2, CHR 0x80, CHR 0x80], [CHR 0xE2, CHR 0x80, CHR 0x81],
     [CHR 0xE2, CHR 0x80, CHR 0x82], [CHR 0xE2, CHR 0x80, CHR 0x83],
     [CHR 0xE2, CHR 0x80, CHR 0x84], [CHR 0xE2, CHR 0x80, CHR 0x85],
     [CHR 0xE2, CHR 0x80, CHR 0x86], [CHR 0xE2, CHR 0x80, CHR 0x87],
     [CHR 0xE2, CHR 0x80, CHR 0x88], [CHR 0xE2, CHR 0x80, CHR 0x89],
     [CHR 0xE2, CHR 0x80, CHR 0x8A],
     [CHR 0xE2, CHR 0x80, CHR 0xA8], [CHR 0xE2, CHR 0x80, CHR 0xA9],
     [CHR 0xE2, CHR 0x80, CHR 0xAF],
     [CHR 0xE2, CHR 0x81, CHR 0x9F],
     [CHR 0xE3, CHR 0x80, CHR 0x80]]"

text \<open>\<open>matches s p\<close>: the string \<open>s\<close> starts with the non-empty sequence \<open>p\<close>.\<close>

definition matches :: "string \<Rightarrow> string \<Rightarrow> bool" where
  "matches s p = (p \<noteq> [] \<and> take (length p) s = p)"

lemma matches_length:
  assumes "matches s p"
  shows "length p \<le> length s \<and> 0 < length p"
proof -
  from assms have "p \<noteq> []" and "take (length p) s = p"
    by (simp_all add: matches_def)
  from this(2) have "length (take (length p) s) = length p" by simp
  then have "length p \<le> length s" by (simp add: min_def split: if_splits)
  with \<open>p \<noteq> []\<close> show ?thesis by simp
qed

lemma matches_shorter:
  assumes "matches s p"
  shows "length (drop (length p) s) < length s"
proof -
  from matches_length [OF assms] have "length s - length p < length s" by linarith
  then show ?thesis by simp
qed

lemma find_matches_Some: "find (matches s) ps = Some p \<Longrightarrow> p \<in> set ps \<and> matches s p"
  by (auto simp: find_Some_iff)

text \<open>\<open>trimPrefixes ps s\<close> removes from the front of \<open>s\<close> every leading occurrence of
  one of the sequences \<open>ps\<close>, until none is left.\<close>

function trimPrefixes :: "string list \<Rightarrow> string \<Rightarrow> string" where
  "trimPrefixes ps s =
     (case find (matches s) ps of
        None \<Rightarrow> s
      | Some p \<Rightarrow> trimPrefixes ps (drop (length p) s))"
  by pat_completeness auto
termination
  by (relation "measure (\<lambda>(ps, s). length s)")
     (auto dest!: find_matches_Some matches_shorter)

declare trimPrefixes.simps [simp del]

definition TrimLeft :: "string \<Rightarrow> string" where
  "TrimLeft s = trimPrefixes spaceRunes s"

definition TrimRight :: "string \<Rightarrow> string" where
  "TrimRight s = rev (trimPrefixes (map rev spaceRunes) (rev s))"

definition TrimSpace :: "string \<Rightarrow> string" where
  "TrimSpace s = TrimRight (TrimLeft s)"

subsection \<open>strings.Split and strings.SplitN\<close>

text \<open>
  \<^verbatim>\<open>Split(s, sep)\<close> slices \<open>s\<close> into all substrings separated by \<open>sep\<close>; a string without
  the separator gives the one-element list \<open>[s]\<close>, so the result is never empty. The
  parser only uses one-byte separators, so the separator is a character here.
\<close>

fun Split :: "string \<Rightarrow> char \<Rightarrow> string list" where
  "Split [] sep = [[]]"
| "Split (c # cs) sep =
     (if c = sep then [] # Split cs sep
      else (case Split cs sep of t # ts \<Rightarrow> (c # t) # ts | [] \<Rightarrow> [[c]]))"

text \<open>
  \<^verbatim>\<open>SplitN(s, sep, n)\<close>: for \<open>n > 0\<close> at most \<open>n\<close> substrings, the last one being the
  unsplit remainder; for \<open>n = 0\<close> no substring at all; for \<open>n < 0\<close> all of them.
\<close>

fun splitAtMost :: "nat \<Rightarrow> string \<Rightarrow> char \<Rightarrow> string list" where
  "splitAtMost 0 s sep = [s]"
| "splitAtMost (Suc k) s sep =
     (case dropWhile (\<lambda>c. c \<noteq> sep) s of
        [] \<Rightarrow> [s]
      | _ # r \<Rightarrow> takeWhile (\<lambda>c. c \<noteq> sep) s # splitAtMost k r sep)"

definition SplitN :: "string \<Rightarrow> char \<Rightarrow> int \<Rightarrow> string list" where
  "SplitN s sep n =
     (if n = 0 then [] else if n < 0 then Split s sep else splitAtMost (nat (n - 1)) s sep)"

subsection \<open>bufio.Reader.ReadString\<close>

text \<open>
  Errors are values. \<open>EOF\<close> is \<^verbatim>\<open>io.EOF\<close>, \<open>ConnError\<close> is any other error of the
  underlying connection, \<open>Errorf\<close> is an error made by \<^verbatim>\<open>fmt.Errorf\<close>.
\<close>

datatype error = EOF | ConnError string | Errorf string

text \<open>
  The buffered reader over a connection is modelled by what it will still deliver: the
  bytes not yet read (\<open>pending\<close>) and the error the connection reports once they are
  used up (\<open>final\<close>: \<open>EOF\<close> for a clean end of stream). A read that waits forever for
  more bytes is outside this model.
\<close>

record reader =
  pending :: string
  final :: error

text \<open>
  \<^verbatim>\<open>ReadString(delim)\<close> reads until the first occurrence of \<open>delim\<close> and returns the
  bytes up to and including it. If the stream ends before a delimiter, it returns the
  bytes read so far together with the error.
\<close>

definition ReadString :: "reader \<Rightarrow> char \<Rightarrow> (string \<times> error option) \<times> reader" where
  "ReadString r delim =
     (if delim \<in> set (pending r)
      then ((takeWhile (\<lambda>c. c \<noteq> delim) (pending r) @ [delim], None),
            r\<lparr>pending := tl (dropWhile (\<lambda>c. c \<noteq> delim) (pending r))\<rparr>)
      else ((pending r, Some (final r)), r\<lparr>pending := []\<rparr>))"

section \<open>The request parser (tcprouter/server.go, parseRequest)\<close>

text \<open>
  In Go the fields \<^verbatim>\<open>Conn\<close> and \<^verbatim>\<open>Reader\<close> are references. Here \<open>Conn\<close> is whatever names
  the connection, and \<open>Reader\<close> is the shared reader as it is when the request is
  returned.
\<close>

record 'c Request =
  Method :: string
  URI :: string
  Headers :: "string \<rightharpoonup> string"
  Conn :: 'c
  Reader :: reader

lemma dropWhile_delim:
  "d \<in> set xs \<Longrightarrow> \<exists>zs. dropWhile (\<lambda>c. c \<noteq> d) xs = d # zs"
  by (induction xs) auto

lemma tl_dropWhile_shorter:
  assumes "d \<in> set xs"
  shows "length (tl (dropWhile (\<lambda>c. c \<noteq> d) xs)) < length xs"
proof -
  from dropWhile_delim [OF assms]
  obtain zs where z: "dropWhile (\<lambda>c. c \<noteq> d) xs = d # zs" ..
  have "length (dropWhile (\<lambda>c. c \<noteq> d) xs) \<le> length xs"
    by (rule length_dropWhile_le)
  then have "Suc (length zs) \<le> length xs"
    by (simp only: z list.size length_Cons)
  then show ?thesis
    by (simp only: z list.sel less_eq_Suc_le)
qed

lemma ReadString_shorter:
  "ReadString r delim = ((line, None), r') \<Longrightarrow> length (pending r') < length (pending r)"
  by (auto simp: ReadString_def tl_dropWhile_shorter simp del: length_tl split: if_splits)

text \<open>The loop that reads the header lines, with the map built so far.\<close>

function readHeaders :: "reader \<Rightarrow> (string \<rightharpoonup> string) \<Rightarrow> (error + (string \<rightharpoonup> string)) \<times> reader" where
  "readHeaders rd headers =
     (case ReadString rd (CHR 0x0A) of
        ((line, Some err), rd') \<Rightarrow> (Inl err, rd')
      | ((line, None), rd') \<Rightarrow>
          (let line = TrimSpace line in
           if line = [] then (Inr headers, rd')
           else
             (let headerParts = SplitN line (CHR '':'') 2 in
              if length headerParts \<noteq> 2 then readHeaders rd' headers
              else readHeaders rd'
                     (headers(TrimSpace (headerParts ! 0) \<mapsto> TrimSpace (headerParts ! 1))))))"
  by pat_completeness auto
termination
  by (relation "measure (\<lambda>(rd, headers). length (pending rd))")
     (auto dest: ReadString_shorter [OF sym])

declare readHeaders.simps [simp del]

definition parseRequest :: "reader \<Rightarrow> 'c \<Rightarrow> (error + 'c Request) \<times> reader" where
  "parseRequest rd conn =
     (case ReadString rd (CHR 0x0A) of
        ((line, Some err), rd') \<Rightarrow> (Inl err, rd')
      | ((line, None), rd') \<Rightarrow>
          (let line = TrimSpace line;
               parts = Split line (CHR '' '')
           in if length parts < 3 then (Inl (Errorf ''malformed request line''), rd')
              else
                (let method = parts ! 0; uri = parts ! 1 in
                 case readHeaders rd' Map.empty of
                   (Inl err, rd'') \<Rightarrow> (Inl err, rd'')
                 | (Inr headers, rd'') \<Rightarrow>
                     (Inr \<lparr>Method = method, URI = uri, Headers = headers,
                           Conn = conn, Reader = rd''\<rparr>, rd''))))"

section \<open>The server (tcprouter/server.go)\<close>

text \<open>
  The job queue is a buffered channel: a capacity fixed by \<^verbatim>\<open>make\<close> and the requests
  it holds, oldest first. A send can proceed only while the buffer has room.
\<close>

record 'a chan =
  cap :: nat
  buf :: "'a list"

definition make_chan :: "nat \<Rightarrow> 'a chan" where
  "make_chan n = \<lparr>cap = n, buf = []\<rparr>"

text \<open>
  The send \<^verbatim>\<open>ch <- x\<close> and the receive \<^verbatim>\<open><-ch\<close> on a buffered channel, for a goroutine
  that runs alone: \<open>None\<close> is the goroutine suspended, at a send because the buffer is
  full, at a receive because it is empty. (A channel of capacity 0 hands the value over
  to a waiting receiver; the queue of the server has capacity 100.)
\<close>

definition send :: "'a chan \<Rightarrow> 'a \<Rightarrow> 'a chan option" where
  "send q x = (if length (buf q) < cap q then Some (q\<lparr>buf := buf q @ [x]\<rparr>) else None)"

definition recv :: "'a chan \<Rightarrow> ('a \<times> 'a chan) option" where
  "recv q = (case buf q of [] \<Rightarrow> None | x # xs \<Rightarrow> Some (x, q\<lparr>buf := xs\<rparr>))"

text \<open>
  The type \<^verbatim>\<open>HandlerFunc\<close> is declared outside the files at hand, so the handler is a
  type parameter. \<open>workerCount\<close> is a Go \<^verbatim>\<open>int\<close>; the code only compares it with a
  counter below it, so it is an \<open>int\<close> here. \<open>wg\<close> is the counter of the wait group. A
  certificate is the string that names it.
\<close>

record tlsConfig =
  Certificates :: "string list"

record ('c, 'h) Server =
  Addr :: string
  Handler :: 'h
  workerCount :: int
  jobQueue :: "'c Request chan"
  TLSConfig :: "tlsConfig option"
  wg :: nat

definition NewServer :: "string \<Rightarrow> 'h \<Rightarrow> int \<Rightarrow> ('c, 'h) Server" where
  "NewServer addr handler workerCount' =
     \<lparr>Addr = addr, Handler = handler, workerCount = workerCount',
      jobQueue = make_chan 100, TLSConfig = None, wg = 0\<rparr>"

text \<open>
  \<^verbatim>\<open>SetTLSConfig\<close>, given what \<^verbatim>\<open>tls.LoadX509KeyPair\<close> answers: an error, or the
  certificate.
\<close>

definition SetTLSConfig :: "('c, 'h) Server \<Rightarrow> error + string \<Rightarrow> ('c, 'h) Server \<times> error option" where
  "SetTLSConfig s loaded =
     (case loaded of
        Inl err \<Rightarrow> (s, Some err)
      | Inr cert \<Rightarrow> (s\<lparr>TLSConfig := Some \<lparr>Certificates = [cert]\<rparr>\<rparr>, None))"

subsection \<open>handleConnection\<close>

text \<open>
  What one run of \<^verbatim>\<open>handleConnection\<close> leaves behind, the goroutine running alone: it
  has returned (and the deferred \<^verbatim>\<open>conn.Close()\<close> has run), or it is suspended at the
  send \<^verbatim>\<open>s.jobQueue <- req\<close> because the queue is full, holding \<open>req\<close>. \<open>logged\<close> are the
  lines it has written to the log.
\<close>

datatype 'c progress = Returned | BlockedOnSend "'c Request"

record 'c connRun =
  progress :: "'c progress"
  queue :: "'c Request chan"
  closed :: bool
  logged :: "string list"

lemma readHeaders_not_longer:
  "length (pending (snd (readHeaders rd headers))) \<le> length (pending rd)"
proof (induction rd headers rule: readHeaders.induct)
  case (1 rd headers)
  obtain line e rd' where r: "ReadString rd (CHR 0x0A) = ((line, e), rd')"
    by (metis surj_pair)
  show ?case
  proof (cases e)
    case (Some err)
    with r show ?thesis
      by (auto simp: readHeaders.simps [of rd] ReadString_def split: if_splits)
  next
    case None
    with r have less: "length (pending rd') < length (pending rd)"
      by (simp add: ReadString_shorter)
    note ih = "1.IH" [OF r [symmetric] refl, unfolded None, OF refl refl]
    have "length (pending (snd (readHeaders rd headers))) \<le> length (pending rd')"
      using ih r None
      by (auto simp: readHeaders.simps [of rd] Let_def fun_upd_def)
    with less show ?thesis by simp
  qed
qed

lemma parseRequest_shorter:
  assumes "parseRequest rd conn = (Inr req, rd')"
  shows "length (pending rd') < length (pending rd)"
proof -
  obtain line e rd1 where r: "ReadString rd (CHR 0x0A) = ((line, e), rd1)"
    by (metis surj_pair)
  with assms have e: "e = None"
    by (cases e) (simp_all add: parseRequest_def)
  with r have less: "length (pending rd1) < length (pending rd)"
    by (simp add: ReadString_shorter)
  from assms r e have "rd' = snd (readHeaders rd1 Map.empty)"
    by (auto simp: parseRequest_def Let_def split: if_splits prod.splits sum.splits)
  with readHeaders_not_longer [of rd1 Map.empty] less show ?thesis
    by simp
qed

text \<open>
  In the code every request of a connection holds a pointer to the one
  \<^verbatim>\<open>bufio.Reader\<close> that \<^verbatim>\<open>handleConnection\<close> made, and the loop goes on reading from it.
  A request of the model holds the reader itself, so after every read the requests that
  this run has put into the queue are given the reader as it now is. They are the last
  \<open>own\<close> entries of the queue, the goroutine running alone.
\<close>

definition shareReader :: "nat \<Rightarrow> reader \<Rightarrow> 'c Request chan \<Rightarrow> 'c Request chan" where
  "shareReader own rd q =
     q\<lparr>buf := take (length (buf q) - own) (buf q) @
               map (\<lambda>r. r\<lparr>Reader := rd\<rparr>) (drop (length (buf q) - own) (buf q))\<rparr>"

lemma length_shareReader: "length (buf (shareReader own rd q)) = length (buf q)"
  by (simp add: shareReader_def)

text \<open>
  The loop of \<^verbatim>\<open>handleConnection\<close>, with the queue and the reader as its state; \<open>own\<close>
  counts the requests of this run that are in the queue.
\<close>

function handleLoop ::
  "'c Request chan \<Rightarrow> nat \<Rightarrow> 'c \<Rightarrow> reader \<Rightarrow> string list \<Rightarrow> 'c connRun" where
  "handleLoop q own conn rd logs =
     (case parseRequest rd conn of
        (Inl err, rd') \<Rightarrow>
          (if err \<noteq> EOF
           then \<comment> \<open>the branch is empty in the source: nothing is logged\<close>
             \<lparr>progress = Returned, queue = shareReader own rd' q, closed = True, logged = logs\<rparr>
           else \<lparr>progress = Returned, queue = shareReader own rd' q, closed = True, logged = logs\<rparr>)
      | (Inr req, rd') \<Rightarrow>
          (case send (shareReader own rd' q) req of
             Some q' \<Rightarrow> handleLoop q' (Suc own) conn rd' logs
           | None \<Rightarrow>
               \<lparr>progress = BlockedOnSend req, queue = shareReader own rd' q, closed = False,
                logged = logs\<rparr>))"
  by pat_completeness auto
termination
  by (relation "measure (\<lambda>(q, own, conn, rd, logs). length (pending rd))")
     (auto dest: parseRequest_shorter [OF sym])

declare handleLoop.simps [simp del]

text \<open>
  \<^verbatim>\<open>handleConnection(conn)\<close>: the reader \<open>rd\<close> is the one that \<^verbatim>\<open>bufio.NewReader(conn)\<close>
  makes, that is, what the connection will deliver.
\<close>

definition handleConnection :: "('c, 'h) Server \<Rightarrow> 'c \<Rightarrow> reader \<Rightarrow> 'c connRun" where
  "handleConnection s conn rd = handleLoop (jobQueue s) 0 conn rd []"

text \<open>
  A goroutine suspended at the send of \<open>req\<close> runs again, on the queue as it is by then:
  it sends, and goes on with the loop on the reader of the request, which is the reader
  of the loop; or the queue is full again and it stays suspended, with its request.
\<close>

definition resume ::
  "'c Request chan \<Rightarrow> nat \<Rightarrow> 'c \<Rightarrow> 'c Request \<Rightarrow> string list \<Rightarrow> 'c connRun" where
  "resume q own conn req logs =
     (case send q req of
        Some q' \<Rightarrow> handleLoop q' (Suc own) conn (Reader req) logs
      | None \<Rightarrow> \<lparr>progress = BlockedOnSend req, queue = q, closed = False, logged = logs\<rparr>)"

subsection \<open>worker\<close>

text \<open>
  One turn of the loop \<^verbatim>\<open>for req := range s.jobQueue\<close> of a worker, up to the call of the
  handler: the worker takes the oldest request out of the queue, or waits (\<open>None\<close>) when
  the queue is empty. It comes back for the next request when the handler has returned.
\<close>

definition workerReceive :: "('c, 'h) Server \<Rightarrow> ('c Request \<times> ('c, 'h) Server) option" where
  "workerReceive s =
     (case recv (jobQueue s) of
        None \<Rightarrow> None
      | Some (req, q') \<Rightarrow> Some (req, s\<lparr>jobQueue := q'\<rparr>))"

subsection \<open>Start\<close>

text \<open>
  \<^verbatim>\<open>Start\<close> talks to the operating system. Its model takes what the system answers:
  the result of \<^verbatim>\<open>net.Listen\<close> (\<open>None\<close> when the socket is bound, or the error), and
  the results of the calls of \<^verbatim>\<open>listener.Accept()\<close> made so far. An accepted connection
  comes with whether it is a \<^verbatim>\<open>*net.TCPConn\<close> and with the result of \<^verbatim>\<open>SetNoDelay\<close>.
  The accept loop never ends, so a run over finitely many accepts has not returned:
  \<open>returned\<close> is \<open>None\<close> then.
\<close>

datatype 'c accepted = AcceptError string | Accepted 'c bool "string option"

record 'c startRun =
  returned :: "error option"
  tlsListener :: bool
  workers :: "int list"
  readers :: "'c list"
  printed :: "string list"

fun acceptLoop :: "'c accepted list \<Rightarrow> 'c startRun \<Rightarrow> 'c startRun" where
  "acceptLoop [] run = run"
| "acceptLoop (AcceptError err # rest) run =
     acceptLoop rest (run\<lparr>printed := printed run @ [''Error accepting connection: '' @ err]\<rparr>)"
| "acceptLoop (Accepted conn isTCP noDelay # rest) run =
     (let run' =
        (if isTCP
         then (case noDelay of
                 Some err \<Rightarrow> run\<lparr>printed := printed run @ [''Failed to set TCP_NODELAY: '' @ err]\<rparr>
               | None \<Rightarrow> run)
         else run)
      in acceptLoop rest (run'\<lparr>readers := readers run' @ [conn]\<rparr>))"

definition Start ::
  "('c, 'h) Server \<Rightarrow> error option \<Rightarrow> 'c accepted list \<Rightarrow> ('c, 'h) Server \<times> 'c startRun" where
  "Start s listen accepts =
     (case listen of
        Some err \<Rightarrow>
          (s, \<lparr>returned = Some err, tlsListener = False, workers = [], readers = [],
               printed = []\<rparr>)
      | None \<Rightarrow>
          (let ids = [0 ..workerCount s - 1] in
           (s\<lparr>wg := wg s + length ids\<rparr>,
            acceptLoop accepts
              \<lparr>returned = None, tlsListener = (TLSConfig s \<noteq> None), workers = ids,
               readers = [], printed = []\<rparr>)))"

section \<open>The response writer (tcprouter/response.go)\<close>

text \<open>
  \<^verbatim>\<open>net.Conn\<close> is an interface. A connection is modelled by its \<^verbatim>\<open>Write\<close> method: a
  function from the bytes and the state \<open>'w\<close> of the network to the count written, the
  error if any, and the new state.
\<close>

record 'w NetConn =
  ConnWrite :: "string \<Rightarrow> 'w \<Rightarrow> (nat \<times> error option) \<times> 'w"

record 'w ResponseWriter =
  RWConn :: "'w NetConn"

definition Write :: "'w ResponseWriter \<Rightarrow> string \<Rightarrow> 'w \<Rightarrow> (nat \<times> error option) \<times> 'w" where
  "Write w data = ConnWrite (RWConn w) data"

section \<open>The notions of the specification\<close>

text \<open>
  A line as \<^verbatim>\<open>ReadString('\n')\<close> returns it: it ends with the newline and has no other.
\<close>

definition isLine :: "string \<Rightarrow> bool" where
  "isLine l = (l \<noteq> [] \<and> last l = CHR 0x0A \<and> CHR 0x0A \<notin> set (butlast l))"

text \<open>
  The name and the value of a header line, in the words of the specification: the line
  is split at its first colon, and both parts are trimmed of surrounding white space.
  The code trims the whole line before it splits; \<open>addHeader_spec\<close> below shows that
  this gives the same name and value.
\<close>

definition headerName :: "string \<Rightarrow> string" where
  "headerName l = TrimSpace (takeWhile (\<lambda>c. c \<noteq> CHR '':'') l)"

definition headerValue :: "string \<Rightarrow> string" where
  "headerValue l = TrimSpace (tl (dropWhile (\<lambda>c. c \<noteq> CHR '':'') l))"

definition headerOf :: "string \<Rightarrow> string \<times> string" where
  "headerOf l = (headerName l, headerValue l)"

abbreviation CRLF :: string where
  "CRLF \<equiv> [CHR 0x0D, CHR 0x0A]"

text \<open>
  A connection that delivers \<open>n\<close> requests one after the other: \<open>parseRequest\<close> succeeds
  \<open>n\<close> times in a row, with these requests, and leaves this reader.
\<close>

fun parseRequests :: "nat \<Rightarrow> reader \<Rightarrow> 'c \<Rightarrow> ('c Request list \<times> reader) option" where
  "parseRequests 0 rd conn = Some ([], rd)"
| "parseRequests (Suc n) rd conn =
     (case parseRequest rd conn of
        (Inl err, rd') \<Rightarrow> None
      | (Inr req, rd') \<Rightarrow>
          (case parseRequests n rd' conn of
             None \<Rightarrow> None
           | Some (reqs, rd'') \<Rightarrow> Some (req # reqs, rd'')))"

text \<open>
  The queue \<open>q\<close> after a run of \<open>handleConnection\<close> has sent the requests \<open>reqs\<close> to it
  and has read up to \<open>rd\<close>: they are at its end, in their order, and their reader is the
  shared one, as it now is.
\<close>

definition enqueued :: "'c Request chan \<Rightarrow> 'c Request list \<Rightarrow> reader \<Rightarrow> 'c Request chan" where
  "enqueued q reqs rd = q\<lparr>buf := buf q @ map (\<lambda>r. r\<lparr>Reader := rd\<rparr>) reqs\<rparr>"

text \<open>Values for the examples: a request of connection 7 whose reader is at its end, and a
  server whose queue has capacity 2.\<close>

abbreviation GET :: "string \<Rightarrow> nat Request" where
  "GET u \<equiv> \<lparr>Method = ''GET'', URI = u, Headers = Map.empty, Conn = 7,
             Reader = \<lparr>pending = [], final = EOF\<rparr>\<rparr>"

abbreviation smallServer :: "(nat, unit) Server" where
  "smallServer \<equiv> \<lparr>Addr = '':8080'', Handler = (), workerCount = 1, jobQueue = make_chan 2,
                   TLSConfig = None, wg = 0\<rparr>"

section \<open>Lemmas on trimming\<close>

text \<open>
  Two properties of a list of sequences: none is the start of another, and no proper
  end of one is the start of \<open>t\<close>.
\<close>

definition prefixFree :: "string list \<Rightarrow> bool" where
  "prefixFree ps = (\<forall>p\<in>set ps. \<forall>q\<in>set ps. matches q p \<longrightarrow> p = q)"

definition noStraddle :: "string list \<Rightarrow> string \<Rightarrow> bool" where
  "noStraddle ps t = (\<forall>q\<in>set ps. \<forall>k\<in>set [1..<length q]. \<not> matches t (drop k q))"

lemma matches_split:
  assumes "matches s p"
  shows "s = p @ drop (length p) s"
proof -
  from assms have "take (length p) s = p" by (simp add: matches_def)
  then have "take (length p) s @ drop (length p) s = p @ drop (length p) s" by simp
  then show ?thesis by simp
qed

lemma find_matches_None: "find (matches s) ps = None \<Longrightarrow> p \<in> set ps \<Longrightarrow> \<not> matches s p"
  by (auto simp: find_None_iff)

lemma matches_append: "matches s p \<Longrightarrow> matches (s @ t) p"
  using matches_length [of s p] by (simp add: matches_def)

lemma matches_shorter_pattern:
  assumes "matches s p" and "matches s q" and "length p \<le> length q"
  shows "matches q p"
proof -
  from assms(1,2) have p: "take (length p) s = p" and q: "take (length q) s = q"
    and n: "p \<noteq> []" by (simp_all add: matches_def)
  from assms(3) have "take (length p) (take (length q) s) = take (length p) s"
    by (simp add: min_def)
  with p q have "take (length p) q = p" by simp
  with n show ?thesis by (simp add: matches_def)
qed

lemma matches_same:
  assumes "prefixFree ps" and "p \<in> set ps" and "q \<in> set ps"
    and "matches s p" and "matches s q"
  shows "p = q"
proof (cases "length p \<le> length q")
  case True
  from matches_shorter_pattern [OF assms(4,5) True] assms(1,2,3) show ?thesis
    by (simp add: prefixFree_def)
next
  case False
  then have "length q \<le> length p" by simp
  from matches_shorter_pattern [OF assms(5,4) this] assms(1,2,3) show ?thesis
    unfolding prefixFree_def by blast
qed

lemma find_matches_unique:
  assumes "prefixFree ps" and "p \<in> set ps" and "matches s p"
  shows "find (matches s) ps = Some p"
proof (cases "find (matches s) ps")
  case None
  with assms(2,3) show ?thesis by (auto dest: find_matches_None)
next
  case (Some q)
  then have "q \<in> set ps" "matches s q" by (auto dest: find_matches_Some)
  with assms have "p = q" by (blast intro: matches_same)
  with Some show ?thesis by simp
qed

text \<open>Trimming is idempotent.\<close>

lemma trimPrefixes_no_match: "find (matches (trimPrefixes ps s)) ps = None"
proof (induction "length s" arbitrary: s rule: less_induct)
  case less
  show ?case
  proof (cases "find (matches s) ps")
    case None
    then show ?thesis by (simp add: trimPrefixes.simps [of ps s])
  next
    case (Some p)
    then have "matches s p" by (auto dest: find_matches_Some)
    from less [OF matches_shorter [OF this]] Some show ?thesis
      by (simp add: trimPrefixes.simps [of ps s])
  qed
qed

lemma trimPrefixes_idem: "trimPrefixes ps (trimPrefixes ps s) = trimPrefixes ps s"
  using trimPrefixes_no_match [of ps s]
  by (simp add: trimPrefixes.simps [of ps "trimPrefixes ps s"])

text \<open>A byte that occurs in no pattern stops the trimming.\<close>

lemma matches_stop:
  assumes "c \<notin> set p"
  shows "matches (x @ c # y) p \<longleftrightarrow> matches x p"
proof (cases "length p \<le> length x")
  case True
  then show ?thesis by (simp add: matches_def)
next
  case False
  then obtain n where n: "length p - length x = Suc n"
    by (cases "length p - length x") simp_all
  then have "take (length p) (x @ c # y) = x @ c # take n y" by simp
  with assms have 1: "take (length p) (x @ c # y) \<noteq> p" by auto
  from False have "length (take (length p) x) \<noteq> length p" by simp
  then have 2: "take (length p) x \<noteq> p" by auto
  from 1 2 show ?thesis by (simp add: matches_def)
qed

lemma trimPrefixes_stop:
  assumes "\<forall>p\<in>set ps. c \<notin> set p"
  shows "trimPrefixes ps (x @ c # y) = trimPrefixes ps x @ c # y"
proof (induction "length x" arbitrary: x rule: less_induct)
  case less
  from assms have same: "find (matches (x @ c # y)) ps = find (matches x) ps"
    by (intro find_cong) (auto simp: matches_stop)
  show ?case
  proof (cases "find (matches x) ps")
    case None
    with same show ?thesis
      by (simp add: trimPrefixes.simps [of ps x] trimPrefixes.simps [of ps "x @ c # y"])
  next
    case (Some p)
    then have m: "matches x p" by (auto dest: find_matches_Some)
    then have "drop (length p) (x @ c # y) = drop (length p) x @ c # y"
      using matches_length [OF m] by simp
    with less [OF matches_shorter [OF m]] Some same show ?thesis
      by (simp add: trimPrefixes.simps [of ps x] trimPrefixes.simps [of ps "x @ c # y"])
  qed
qed

text \<open>Trimming \<open>s @ t\<close> when the trimming of \<open>s\<close> stops inside \<open>s\<close>, and when it does not.\<close>

lemma trimPrefixes_append_nonempty:
  assumes "prefixFree ps" and "noStraddle ps t"
  shows "trimPrefixes ps s \<noteq> [] \<Longrightarrow> trimPrefixes ps (s @ t) = trimPrefixes ps s @ t"
proof (induction "length s" arbitrary: s rule: less_induct)
  case less
  show ?case
  proof (cases "find (matches s) ps")
    case None
    with less.prems have s: "s \<noteq> []" by (simp add: trimPrefixes.simps [of ps s])
    have "find (matches (s @ t)) ps = None"
    proof (rule ccontr)
      assume "find (matches (s @ t)) ps \<noteq> None"
      then obtain q where q: "q \<in> set ps" "matches (s @ t) q"
        by (auto dest: find_matches_Some)
      show False
      proof (cases "length q \<le> length s")
        case True
        with q(2) have "matches s q" by (simp add: matches_def)
        with None q(1) show False by (auto dest: find_matches_None)
      next
        case False
        then have k: "length s \<in> set [1..<length q]" using s by (cases s) auto
        from q(2) have "take (length q) (s @ t) = q" by (simp add: matches_def)
        with False have e: "q = s @ take (length q - length s) t" by simp
        have "drop (length s) q = drop (length s) (s @ take (length q - length s) t)"
          by (subst e) (rule refl)
        then have d: "drop (length s) q = take (length q - length s) t" by simp
        from False have "drop (length s) q \<noteq> []" by simp
        moreover have "take (length (drop (length s) q)) t = drop (length s) q"
          by (simp add: d [symmetric])
        ultimately have "matches t (drop (length s) q)"
          by (simp add: matches_def)
        with assms(2) q(1) k show False by (auto simp: noStraddle_def)
      qed
    qed
    with None show ?thesis
      by (simp add: trimPrefixes.simps [of ps s] trimPrefixes.simps [of ps "s @ t"])
  next
    case (Some p)
    then have p: "p \<in> set ps" and m: "matches s p" by (auto dest: find_matches_Some)
    have f: "find (matches (s @ t)) ps = Some p"
      by (rule find_matches_unique [OF assms(1) p matches_append [OF m]])
    have d: "drop (length p) (s @ t) = drop (length p) s @ t"
      using matches_length [OF m] by simp
    from less.prems Some have "trimPrefixes ps (drop (length p) s) \<noteq> []"
      by (simp add: trimPrefixes.simps [of ps s])
    from less.hyps [OF matches_shorter [OF m] this] Some f d show ?thesis
      by (simp add: trimPrefixes.simps [of ps s] trimPrefixes.simps [of ps "s @ t"])
  qed
qed

lemma trimPrefixes_append_empty:
  assumes "prefixFree ps"
  shows "trimPrefixes ps s = [] \<Longrightarrow> trimPrefixes ps (s @ t) = trimPrefixes ps t"
proof (induction "length s" arbitrary: s rule: less_induct)
  case less
  show ?case
  proof (cases "find (matches s) ps")
    case None
    with less.prems have "s = []" by (simp add: trimPrefixes.simps [of ps s])
    then show ?thesis by simp
  next
    case (Some p)
    then have p: "p \<in> set ps" and m: "matches s p" by (auto dest: find_matches_Some)
    have f: "find (matches (s @ t)) ps = Some p"
      by (rule find_matches_unique [OF assms(1) p matches_append [OF m]])
    have d: "drop (length p) (s @ t) = drop (length p) s @ t"
      using matches_length [OF m] by simp
    from less.prems Some have "trimPrefixes ps (drop (length p) s) = []"
      by (simp add: trimPrefixes.simps [of ps s])
    from less.hyps [OF matches_shorter [OF m] this] Some f d show ?thesis
      by (simp add: trimPrefixes.simps [of ps "s @ t"])
  qed
qed

lemma trimPrefixes_is_suffix: "\<exists>a. s = a @ trimPrefixes ps s"
proof (induction "length s" arbitrary: s rule: less_induct)
  case less
  show ?case
  proof (cases "find (matches s) ps")
    case None
    then show ?thesis by (simp add: trimPrefixes.simps [of ps s])
  next
    case (Some p)
    then have m: "matches s p" by (auto dest: find_matches_Some)
    from less [OF matches_shorter [OF m]]
    obtain a where a: "drop (length p) s = a @ trimPrefixes ps (drop (length p) s)" ..
    have "s = take (length p) s @ drop (length p) s" by simp
    with a have "s = (take (length p) s @ a) @ trimPrefixes ps (drop (length p) s)"
      by simp
    with Some show ?thesis
      by (simp only: trimPrefixes.simps [of ps s] option.case) blast
  qed
qed

text \<open>The white-space runes: no one is a prefix or a suffix of another, and no proper
  prefix of one is the end of another.\<close>

lemma spaceRunes_prefixFree: "prefixFree spaceRunes"
  by code_simp

lemma spaceRunes_rev_prefixFree: "prefixFree (map rev spaceRunes)"
  by code_simp

lemma spaceRunes_noStraddle:
  "\<forall>p\<in>set spaceRunes. noStraddle (map rev spaceRunes) (rev p)"
  by code_simp

lemma spaceRunes_TrimRight: "\<forall>p\<in>set spaceRunes. trimPrefixes (map rev spaceRunes) (rev p) = []"
  by code_simp

lemma trimPrefixes_subset: "set (trimPrefixes ps s) \<subseteq> set s"
proof (induction ps s rule: trimPrefixes.induct)
  case (1 ps s)
  show ?case
  proof (cases "find (matches s) ps")
    case None
    then show ?thesis by (simp add: trimPrefixes.simps [of ps s])
  next
    case (Some p)
    with "1.IH" [OF Some] set_drop_subset [of "length p" s] show ?thesis
      by (auto simp: trimPrefixes.simps [of ps s])
  qed
qed

lemma colon_not_space: "\<forall>p\<in>set spaceRunes. CHR '':'' \<notin> set p"
  by (simp add: spaceRunes_def)

lemma TrimRight_is_prefix: "\<exists>b. y = TrimRight y @ b"
proof -
  from trimPrefixes_is_suffix [of "rev y" "map rev spaceRunes"]
  obtain a where "rev y = a @ trimPrefixes (map rev spaceRunes) (rev y)" ..
  then have "rev (rev y) = rev (a @ trimPrefixes (map rev spaceRunes) (rev y))"
    by (rule arg_cong)
  then have "y = TrimRight y @ rev a" by (simp add: TrimRight_def)
  then show ?thesis ..
qed

lemma TrimRight_pattern_append:
  assumes "p \<in> set spaceRunes"
  shows "TrimRight (p @ z) = (if TrimRight z = [] then [] else p @ TrimRight z)"
proof (cases "trimPrefixes (map rev spaceRunes) (rev z) = []")
  case True
  from trimPrefixes_append_empty [OF spaceRunes_rev_prefixFree True, of "rev p"]
    spaceRunes_TrimRight assms True
  show ?thesis by (simp add: TrimRight_def)
next
  case False
  from assms spaceRunes_noStraddle have "noStraddle (map rev spaceRunes) (rev p)" by blast
  from trimPrefixes_append_nonempty [OF spaceRunes_rev_prefixFree this False] False
  show ?thesis by (simp add: TrimRight_def)
qed

lemma TrimLeft_pattern_append:
  assumes "p \<in> set spaceRunes" and "p \<noteq> []"
  shows "TrimLeft (p @ z) = TrimLeft z"
proof -
  from assms(2) have "matches (p @ z) p" by (simp add: matches_def)
  from find_matches_unique [OF spaceRunes_prefixFree assms(1) this]
  show ?thesis by (simp add: TrimLeft_def trimPrefixes.simps [of spaceRunes "p @ z"])
qed

lemma TrimLeft_TrimRight: "TrimLeft (TrimRight y) = TrimRight (TrimLeft y)"
proof (induction "length y" arbitrary: y rule: less_induct)
  case less
  show ?case
  proof (cases "find (matches y) spaceRunes")
    case None
    then have l: "TrimLeft y = y"
      by (simp add: TrimLeft_def trimPrefixes.simps [of spaceRunes y])
    from TrimRight_is_prefix [of y] obtain b where b: "y = TrimRight y @ b" ..
    have "find (matches (TrimRight y)) spaceRunes = None"
    proof (rule ccontr)
      assume "find (matches (TrimRight y)) spaceRunes \<noteq> None"
      then obtain q where q: "q \<in> set spaceRunes" "matches (TrimRight y) q"
        by (auto dest: find_matches_Some)
      from matches_append [OF q(2), of b] b have "matches y q" by simp
      with None q(1) show False by (auto dest: find_matches_None)
    qed
    then have "TrimLeft (TrimRight y) = TrimRight y"
      by (simp add: TrimLeft_def trimPrefixes.simps [of spaceRunes "TrimRight y"])
    with l show ?thesis by simp
  next
    case (Some p)
    then have p: "p \<in> set spaceRunes" and m: "matches y p"
      by (auto dest: find_matches_Some)
    let ?z = "drop (length p) y"
    from m have n: "p \<noteq> []" by (simp add: matches_def)
    from matches_split [OF m] have y: "y = p @ ?z" .
    have l: "TrimLeft y = TrimLeft ?z"
      by (subst y) (rule TrimLeft_pattern_append [OF p n])
    have ih: "TrimLeft (TrimRight ?z) = TrimRight (TrimLeft ?z)"
      by (rule less [OF matches_shorter [OF m]])
    have r: "TrimRight y = (if TrimRight ?z = [] then [] else p @ TrimRight ?z)"
      by (subst y) (rule TrimRight_pattern_append [OF p])
    show ?thesis
    proof (cases "TrimRight ?z = []")
      case True
      with r have "TrimRight y = []" by simp
      then have "TrimLeft (TrimRight y) = TrimLeft []" by simp
      also have "\<dots> = TrimLeft (TrimRight ?z)" using True by simp
      finally show ?thesis using ih l by simp
    next
      case False
      with r have "TrimRight y = p @ TrimRight ?z" by simp
      then have "TrimLeft (TrimRight y) = TrimLeft (TrimRight ?z)"
        by (simp add: TrimLeft_pattern_append [OF p n])
      with ih l show ?thesis by simp
    qed
  qed
qed

lemma TrimLeft_idem: "TrimLeft (TrimLeft s) = TrimLeft s"
  by (simp add: TrimLeft_def trimPrefixes_idem)

lemma TrimRight_idem: "TrimRight (TrimRight s) = TrimRight s"
  by (simp add: TrimRight_def trimPrefixes_idem)

lemma TrimSpace_TrimLeft: "TrimSpace (TrimLeft s) = TrimSpace s"
  by (simp add: TrimSpace_def TrimLeft_idem)

lemma TrimSpace_TrimRight: "TrimSpace (TrimRight s) = TrimSpace s"
  by (simp add: TrimSpace_def TrimLeft_TrimRight TrimRight_idem)

lemma TrimSpace_idem: "TrimSpace (TrimSpace s) = TrimSpace s"
  by (simp add: TrimSpace_def TrimLeft_TrimRight TrimRight_idem TrimLeft_idem)

lemma TrimSpace_colon:
  "TrimSpace (x @ CHR '':'' # y) = TrimLeft x @ CHR '':'' # TrimRight y"
proof -
  have l: "TrimLeft (x @ CHR '':'' # y) = TrimLeft x @ CHR '':'' # y"
    unfolding TrimLeft_def by (rule trimPrefixes_stop [OF colon_not_space])
  have "\<forall>p\<in>set (map rev spaceRunes). CHR '':'' \<notin> set p"
    using colon_not_space by simp
  from trimPrefixes_stop [OF this, of "rev y" "rev (TrimLeft x)"]
  have "TrimRight (TrimLeft x @ CHR '':'' # y) = TrimLeft x @ CHR '':'' # TrimRight y"
    by (simp add: TrimRight_def)
  with l show ?thesis by (simp add: TrimSpace_def)
qed

section \<open>Lemmas on the reader and on splitting\<close>

lemma isLine_split: "isLine l \<Longrightarrow> \<exists>b. l = b @ [CHR 0x0A] \<and> CHR 0x0A \<notin> set b"
  unfolding isLine_def by (metis append_butlast_last_id)

lemma takeWhile_neq_delim:
  "d \<notin> set b \<Longrightarrow> takeWhile (\<lambda>c. c \<noteq> d) (b @ d # r) = b"
  by (induction b) auto

lemma dropWhile_neq_delim:
  "d \<notin> set b \<Longrightarrow> dropWhile (\<lambda>c. c \<noteq> d) (b @ d # r) = d # r"
  by (induction b) auto

lemma ReadString_line:
  assumes "isLine l" and "pending rd = l @ rest"
  shows "ReadString rd (CHR 0x0A) = ((l, None), rd\<lparr>pending := rest\<rparr>)"
proof -
  from isLine_split [OF assms(1)]
  obtain b where l: "l = b @ [CHR 0x0A]" and b: "CHR 0x0A \<notin> set b" by blast
  show ?thesis
    using assms(2) l takeWhile_neq_delim [OF b, of rest] dropWhile_neq_delim [OF b, of rest]
    by (simp add: ReadString_def)
qed

lemma SplitN_2:
  "SplitN s sep 2 =
     (case dropWhile (\<lambda>c. c \<noteq> sep) s of
        [] \<Rightarrow> [s]
      | _ # r \<Rightarrow> [takeWhile (\<lambda>c. c \<noteq> sep) s, r])"
proof -
  have eq: "SplitN s sep 2 = splitAtMost (Suc 0) s sep"
    by (simp add: SplitN_def)
  show ?thesis
  proof (cases "dropWhile (\<lambda>c. c \<noteq> sep) s")
    case Nil
    then show ?thesis by (simp only: eq splitAtMost.simps list.case)
  next
    case (Cons a r)
    then show ?thesis by (simp only: eq splitAtMost.simps list.case)
  qed
qed

lemma SplitN_2_length: "length (SplitN s sep 2) = 2 \<longleftrightarrow> sep \<in> set s"
proof (cases "sep \<in> set s")
  case True
  from dropWhile_delim [OF this]
  obtain zs where "dropWhile (\<lambda>c. c \<noteq> sep) s = sep # zs" ..
  with True show ?thesis by (simp add: SplitN_2)
next
  case False
  then have "dropWhile (\<lambda>c. c \<noteq> sep) s = []"
    by auto
  with False show ?thesis by (simp only: SplitN_2 list.case) simp
qed

lemma SplitN_2_parts:
  assumes "sep \<in> set s"
  shows "SplitN s sep 2 ! 0 = takeWhile (\<lambda>c. c \<noteq> sep) s"
    and "SplitN s sep 2 ! Suc 0 = tl (dropWhile (\<lambda>c. c \<noteq> sep) s)"
proof -
  from dropWhile_delim [OF assms]
  obtain zs where z: "dropWhile (\<lambda>c. c \<noteq> sep) s = sep # zs" ..
  show "SplitN s sep 2 ! 0 = takeWhile (\<lambda>c. c \<noteq> sep) s"
    by (simp add: SplitN_2 z)
  show "SplitN s sep 2 ! Suc 0 = tl (dropWhile (\<lambda>c. c \<noteq> sep) s)"
    by (simp add: SplitN_2 z)
qed

section \<open>Lemmas on the header loop\<close>

text \<open>
  The body of the loop over the header lines, as the code computes it on the line that
  \<^verbatim>\<open>ReadString\<close> returned: what one non-empty line does to the header map.
\<close>

definition addHeader :: "string \<Rightarrow> (string \<rightharpoonup> string) \<Rightarrow> (string \<rightharpoonup> string)" where
  "addHeader l headers =
     (let line = TrimSpace l; headerParts = SplitN line (CHR '':'') 2
      in if length headerParts \<noteq> 2 then headers
         else headers(TrimSpace (headerParts ! 0) \<mapsto> TrimSpace (headerParts ! 1)))"

lemma set_TrimSpace: "set (TrimSpace s) \<subseteq> set s"
proof -
  have "set (TrimSpace s) \<subseteq> set (TrimLeft s)"
    using trimPrefixes_subset [of "map rev spaceRunes" "rev (TrimLeft s)"]
    by (simp add: TrimSpace_def TrimRight_def)
  also have "\<dots> \<subseteq> set s"
    unfolding TrimLeft_def by (rule trimPrefixes_subset)
  finally show ?thesis .
qed

lemma split_at_colon:
  assumes "CHR '':'' \<in> set l"
  shows "l = takeWhile (\<lambda>c. c \<noteq> CHR '':'') l @ CHR '':'' # tl (dropWhile (\<lambda>c. c \<noteq> CHR '':'') l)"
proof -
  from dropWhile_delim [OF assms]
  obtain zs where z: "dropWhile (\<lambda>c. c \<noteq> CHR '':'') l = CHR '':'' # zs" ..
  have "l = takeWhile (\<lambda>c. c \<noteq> CHR '':'') l @ dropWhile (\<lambda>c. c \<noteq> CHR '':'') l"
    by simp
  then show ?thesis by (simp only: z list.sel)
qed

lemma colon_not_in_takeWhile: "CHR '':'' \<notin> set (takeWhile (\<lambda>c. c \<noteq> CHR '':'') l)"
  by (auto dest: set_takeWhileD)

lemma TrimSpace_at_colon:
  assumes "CHR '':'' \<in> set l"
  shows "TrimSpace l =
    TrimLeft (takeWhile (\<lambda>c. c \<noteq> CHR '':'') l) @ CHR '':'' #
    TrimRight (tl (dropWhile (\<lambda>c. c \<noteq> CHR '':'') l))"
  by (subst split_at_colon [OF assms]) (rule TrimSpace_colon)

lemma colon_TrimSpace: "CHR '':'' \<in> set (TrimSpace l) \<longleftrightarrow> CHR '':'' \<in> set l"
proof
  assume "CHR '':'' \<in> set (TrimSpace l)"
  with set_TrimSpace [of l] show "CHR '':'' \<in> set l" by blast
next
  assume "CHR '':'' \<in> set l"
  from TrimSpace_at_colon [OF this] show "CHR '':'' \<in> set (TrimSpace l)" by simp
qed

text \<open>
  Trimming the line and then splitting it, as the code does, gives the name and the
  value of the specification, which splits the line as it is.
\<close>

lemma header_parts:
  assumes "CHR '':'' \<in> set l"
  shows "TrimSpace (takeWhile (\<lambda>c. c \<noteq> CHR '':'') (TrimSpace l)) = headerName l"
    and "TrimSpace (tl (dropWhile (\<lambda>c. c \<noteq> CHR '':'') (TrimSpace l))) = headerValue l"
proof -
  let ?x = "takeWhile (\<lambda>c. c \<noteq> CHR '':'') l"
  let ?y = "tl (dropWhile (\<lambda>c. c \<noteq> CHR '':'') l)"
  have t: "TrimSpace l = TrimLeft ?x @ CHR '':'' # TrimRight ?y"
    by (rule TrimSpace_at_colon [OF assms])
  have "set (TrimLeft ?x) \<subseteq> set ?x"
    unfolding TrimLeft_def by (rule trimPrefixes_subset)
  with colon_not_in_takeWhile [of l] have n: "CHR '':'' \<notin> set (TrimLeft ?x)" by blast
  have "takeWhile (\<lambda>c. c \<noteq> CHR '':'') (TrimSpace l) = TrimLeft ?x"
    by (simp only: t takeWhile_neq_delim [OF n])
  then show "TrimSpace (takeWhile (\<lambda>c. c \<noteq> CHR '':'') (TrimSpace l)) = headerName l"
    by (simp add: headerName_def TrimSpace_TrimLeft)
  have "dropWhile (\<lambda>c. c \<noteq> CHR '':'') (TrimSpace l) = CHR '':'' # TrimRight ?y"
    by (simp only: t dropWhile_neq_delim [OF n])
  then show "TrimSpace (tl (dropWhile (\<lambda>c. c \<noteq> CHR '':'') (TrimSpace l))) = headerValue l"
    by (simp add: headerValue_def TrimSpace_TrimRight)
qed

lemma addHeader_spec:
  "addHeader l headers =
     (if CHR '':'' \<in> set l then headers(headerName l \<mapsto> headerValue l) else headers)"
proof (cases "CHR '':'' \<in> set l")
  case True
  then have c: "CHR '':'' \<in> set (TrimSpace l)" by (simp add: colon_TrimSpace)
  from True show ?thesis
    by (simp add: addHeader_def Let_def SplitN_2_length SplitN_2_parts [OF c] c
        header_parts [OF True])
next
  case False
  then have "CHR '':'' \<notin> set (TrimSpace l)" by (simp add: colon_TrimSpace)
  with False show ?thesis
    by (simp add: addHeader_def Let_def SplitN_2_length)
qed

lemma fold_addHeader:
  "fold addHeader hs m =
     m ++ map_of (rev (map headerOf (filter (\<lambda>h. CHR '':'' \<in> set h) hs)))"
  by (induction hs arbitrary: m)
     (simp_all add: addHeader_spec headerOf_def map_add_upd_left)

lemma readHeaders_step:
  assumes "isLine h" and "TrimSpace h \<noteq> []" and "pending rd = h @ rest"
  shows "readHeaders rd m = readHeaders (rd\<lparr>pending := rest\<rparr>) (addHeader h m)"
  using assms(2)
  by (simp add: readHeaders.simps [of rd] ReadString_line [OF assms(1,3)] Let_def
      addHeader_def)

lemma readHeaders_end:
  assumes "isLine t" and "TrimSpace t = []" and "pending rd = t @ rest"
  shows "readHeaders rd m = (Inr m, rd\<lparr>pending := rest\<rparr>)"
  using assms by (simp add: readHeaders.simps [of rd] ReadString_line [OF assms(1,3)])

lemma readHeaders_lines:
  assumes "\<forall>h\<in>set hs. isLine h \<and> TrimSpace h \<noteq> []"
    and "isLine t" and "TrimSpace t = []"
    and "pending rd = concat hs @ t @ rest"
  shows "readHeaders rd m = (Inr (fold addHeader hs m), rd\<lparr>pending := rest\<rparr>)"
  using assms
proof (induction hs arbitrary: rd m)
  case Nil
  then show ?case by (simp add: readHeaders_end)
next
  case (Cons h hs)
  from Cons.prems have h: "isLine h" "TrimSpace h \<noteq> []"
    and p: "pending rd = h @ (concat hs @ t @ rest)" by simp_all
  have "readHeaders rd m = readHeaders (rd\<lparr>pending := concat hs @ t @ rest\<rparr>) (addHeader h m)"
    by (rule readHeaders_step [OF h p])
  also have "\<dots> = (Inr (fold addHeader hs (addHeader h m)), rd\<lparr>pending := rest\<rparr>)"
    using Cons.IH [of "rd\<lparr>pending := concat hs @ t @ rest\<rparr>" "addHeader h m"] Cons.prems
    by simp
  finally show ?case by simp
qed

lemma parseRequest_lines:
  assumes "isLine rl" and "3 \<le> length (Split (TrimSpace rl) (CHR '' ''))"
    and "\<forall>h\<in>set hs. isLine h \<and> TrimSpace h \<noteq> []"
    and "isLine t" and "TrimSpace t = []"
    and "pending rd = rl @ concat hs @ t @ rest"
  shows "parseRequest rd conn =
    (Inr \<lparr>Method = Split (TrimSpace rl) (CHR '' '') ! 0,
          URI = Split (TrimSpace rl) (CHR '' '') ! 1,
          Headers = fold addHeader hs Map.empty,
          Conn = conn, Reader = rd\<lparr>pending := rest\<rparr>\<rparr>, rd\<lparr>pending := rest\<rparr>)"
proof -
  have r: "ReadString rd (CHR 0x0A) = ((rl, None), rd\<lparr>pending := concat hs @ t @ rest\<rparr>)"
    by (rule ReadString_line [OF assms(1,6)])
  have h: "readHeaders (rd\<lparr>pending := concat hs @ t @ rest\<rparr>) Map.empty =
      (Inr (fold addHeader hs Map.empty), rd\<lparr>pending := rest\<rparr>)"
    using readHeaders_lines [OF assms(3,4,5), of "rd\<lparr>pending := concat hs @ t @ rest\<rparr>" rest Map.empty]
    by simp
  from assms(2) show ?thesis
    by (simp add: parseRequest_def r h Let_def)
qed

text \<open>Conversely, every successful parse has read a request of that shape.\<close>

lemma ReadString_success:
  assumes "ReadString rd (CHR 0x0A) = ((line, None), rd')"
  shows "isLine line \<and> pending rd = line @ pending rd' \<and> rd' = rd\<lparr>pending := pending rd'\<rparr>"
proof -
  let ?p = "pending rd"
  from assms have nl: "CHR 0x0A \<in> set ?p"
    by (auto simp: ReadString_def split: if_splits)
  with assms have line: "line = takeWhile (\<lambda>c. c \<noteq> CHR 0x0A) ?p @ [CHR 0x0A]"
    and rd': "rd' = rd\<lparr>pending := tl (dropWhile (\<lambda>c. c \<noteq> CHR 0x0A) ?p)\<rparr>"
    by (simp_all add: ReadString_def)
  from dropWhile_delim [OF nl]
  obtain zs where z: "dropWhile (\<lambda>c. c \<noteq> CHR 0x0A) ?p = CHR 0x0A # zs" ..
  have "?p = takeWhile (\<lambda>c. c \<noteq> CHR 0x0A) ?p @ dropWhile (\<lambda>c. c \<noteq> CHR 0x0A) ?p"
    by simp
  then have "?p = line @ zs" by (simp only: z line) simp
  moreover have "pending rd' = zs" by (simp add: rd' z)
  moreover have "isLine line"
    by (auto simp: isLine_def line dest: set_takeWhileD)
  ultimately show ?thesis by (simp add: rd')
qed

lemma readHeaders_success:
  "readHeaders rd m = (Inr m', rd') \<Longrightarrow>
     \<exists>hs t. (\<forall>h\<in>set hs. isLine h \<and> TrimSpace h \<noteq> []) \<and> isLine t \<and> TrimSpace t = [] \<and>
       pending rd = concat hs @ t @ pending rd' \<and> rd' = rd\<lparr>pending := pending rd'\<rparr> \<and>
       m' = fold addHeader hs m"
proof (induction "length (pending rd)" arbitrary: rd m rule: less_induct)
  case less
  obtain line e rd1 where r: "ReadString rd (CHR 0x0A) = ((line, e), rd1)"
    by (metis surj_pair)
  with less.prems have e: "e = None"
    by (cases e) (simp_all add: readHeaders.simps [of rd])
  from ReadString_success [OF r [unfolded e]]
  have l: "isLine line" and p: "pending rd = line @ pending rd1"
    and rd1: "rd1 = rd\<lparr>pending := pending rd1\<rparr>" by simp_all
  show ?case
  proof (cases "TrimSpace line = []")
    case True
    with less.prems r e have "m' = m" "rd' = rd1"
      by (simp_all add: readHeaders.simps [of rd])
    with l True p rd1 have
      "(\<forall>h\<in>set []. isLine h \<and> TrimSpace h \<noteq> []) \<and> isLine line \<and> TrimSpace line = [] \<and>
       pending rd = concat [] @ line @ pending rd' \<and> rd' = rd\<lparr>pending := pending rd'\<rparr> \<and>
       m' = fold addHeader [] m" by simp
    then show ?thesis by blast
  next
    case False
    from readHeaders_step [OF l False p, of m] rd1 less.prems
    have next_call: "readHeaders rd1 (addHeader line m) = (Inr m', rd')" by simp
    from r e have "length (pending rd1) < length (pending rd)"
      by (simp add: ReadString_shorter)
    from less.hyps [OF this next_call]
    obtain hs t where hs: "\<forall>h\<in>set hs. isLine h \<and> TrimSpace h \<noteq> []"
      and t: "isLine t" "TrimSpace t = []"
      and p1: "pending rd1 = concat hs @ t @ pending rd'"
      and rd': "rd' = rd1\<lparr>pending := pending rd'\<rparr>"
      and m': "m' = fold addHeader hs (addHeader line m)" by blast
    from rd' rd1 have "rd' = rd\<lparr>pending := pending rd'\<rparr>"
      by (metis reader.update_convs(1) reader.surjective)
    with hs t p p1 m' l False have
      "(\<forall>h\<in>set (line # hs). isLine h \<and> TrimSpace h \<noteq> []) \<and> isLine t \<and> TrimSpace t = [] \<and>
       pending rd = concat (line # hs) @ t @ pending rd' \<and> rd' = rd\<lparr>pending := pending rd'\<rparr> \<and>
       m' = fold addHeader (line # hs) m" by simp
    then show ?thesis by blast
  qed
qed

lemma parseRequest_success_shape:
  assumes "parseRequest rd conn = (Inr req, rd')"
  shows "\<exists>rl hs t. isLine rl \<and> 3 \<le> length (Split (TrimSpace rl) (CHR '' '')) \<and>
       (\<forall>h\<in>set hs. isLine h \<and> TrimSpace h \<noteq> []) \<and> isLine t \<and> TrimSpace t = [] \<and>
       pending rd = rl @ concat hs @ t @ pending rd' \<and> rd' = rd\<lparr>pending := pending rd'\<rparr>"
proof -
  obtain line e rd1 where r: "ReadString rd (CHR 0x0A) = ((line, e), rd1)"
    by (metis surj_pair)
  with assms have e: "e = None"
    by (cases e) (simp_all add: parseRequest_def)
  from ReadString_success [OF r [unfolded e]]
  have l: "isLine line" and p: "pending rd = line @ pending rd1"
    and rd1: "rd1 = rd\<lparr>pending := pending rd1\<rparr>" by simp_all
  from assms r e have three: "3 \<le> length (Split (TrimSpace line) (CHR '' ''))"
    by (auto simp: parseRequest_def Let_def split: if_splits)
  with assms r e obtain m' where "readHeaders rd1 Map.empty = (Inr m', rd')"
    by (auto simp: parseRequest_def Let_def split: prod.splits sum.splits)
  from readHeaders_success [OF this]
  obtain hs t where hs: "\<forall>h\<in>set hs. isLine h \<and> TrimSpace h \<noteq> []"
    and t: "isLine t" "TrimSpace t = []"
    and p1: "pending rd1 = concat hs @ t @ pending rd'"
    and rd': "rd' = rd1\<lparr>pending := pending rd'\<rparr>" by blast
  from rd' rd1 have "rd' = rd\<lparr>pending := pending rd'\<rparr>"
    by (metis reader.update_convs(1) reader.surjective)
  with l three hs t p p1 show ?thesis by auto
qed

lemma Split_first:
  "sep \<notin> set a \<Longrightarrow> Split (a @ sep # b) sep = a # Split b sep"
  by (induction a) auto

lemma parseRequest_malformed:
  assumes "isLine rl" and "length (Split (TrimSpace rl) (CHR '' '')) < 3"
    and "pending rd = rl @ rest"
  shows "parseRequest rd conn = (Inl (Errorf ''malformed request line''), rd\<lparr>pending := rest\<rparr>)"
  using assms(2) by (simp add: parseRequest_def ReadString_line [OF assms(1,3)] Let_def)

lemma handleLoop_logged: "logged (handleLoop q own conn rd logs) = logs"
proof (induction q own conn rd logs rule: handleLoop.induct)
  case (1 q own conn rd logs)
  obtain res rd' where p: "parseRequest rd conn = (res, rd')"
    by (metis surj_pair)
  show ?case
  proof (cases res)
    case (Inl err)
    with p show ?thesis by (simp add: handleLoop.simps [of q own conn rd])
  next
    case (Inr req)
    show ?thesis
    proof (cases "send (shareReader own rd' q) req")
      case None
      with p Inr show ?thesis by (simp add: handleLoop.simps [of q own conn rd])
    next
      case (Some q')
      with p Inr "1.IH" [OF p [symmetric] Inr Some] show ?thesis
        by (simp add: handleLoop.simps [of q own conn rd])
    qed
  qed
qed

lemma shareReader_0 [simp]: "shareReader 0 rd q = q"
  by (simp add: shareReader_def)

section \<open>Lemmas on the job queue\<close>

lemma cap_shareReader: "cap (shareReader own rd q) = cap q"
  by (simp add: shareReader_def)

lemma parseRequest_Reader: "parseRequest rd conn = (Inr req, rd') \<Longrightarrow> Reader req = rd'"
  by (auto simp: parseRequest_def Let_def split: prod.splits sum.splits option.splits if_splits)

lemma parseRequests_length: "parseRequests n rd conn = Some (reqs, rd') \<Longrightarrow> length reqs = n"
  by (induction n arbitrary: rd reqs)
     (auto split: prod.splits sum.splits option.splits)

lemma parseRequests_last_Reader:
  "parseRequests (Suc n) rd conn = Some (reqs, rd') \<Longrightarrow> Reader (last reqs) = rd'"
proof (induction n arbitrary: rd reqs)
  case 0
  then show ?case
    by (auto split: prod.splits sum.splits dest: parseRequest_Reader)
next
  case (Suc n)
  from Suc.prems obtain r1 rd1 reqs' where p: "parseRequest rd conn = (Inr r1, rd1)"
    and m: "parseRequests (Suc n) rd1 conn = Some (reqs', rd')" and r: "reqs = r1 # reqs'"
    by (auto simp: parseRequests.simps(2) [of "Suc n"] split: prod.splits sum.splits option.splits)
  from parseRequests_length [OF m] have "reqs' \<noteq> []" by auto
  with Suc.IH [OF m] r show ?case by simp
qed

lemma shareReader_send:
  assumes "send (shareReader own rd1 q) r1 = Some q1"
  shows "shareReader (Suc own) rd q1 =
    (shareReader own rd q)\<lparr>buf := buf (shareReader own rd q) @ [r1\<lparr>Reader := rd\<rparr>]\<rparr>"
proof -
  let ?n = "length (buf q) - own"
  from assms have q1: "q1 = (shareReader own rd1 q)\<lparr>buf := buf (shareReader own rd1 q) @ [r1]\<rparr>"
    by (simp add: send_def split: if_splits)
  have n: "?n \<le> length (buf q)" by simp
  have len: "length (buf q1) - Suc own = ?n"
    by (simp add: q1 length_shareReader)
  have b1: "buf q1 = take ?n (buf q) @ map (\<lambda>r. r\<lparr>Reader := rd1\<rparr>) (drop ?n (buf q)) @ [r1]"
    by (simp add: q1 shareReader_def)
  have t: "take ?n (buf q1) = take ?n (buf q)"
    by (simp add: b1)
  have d: "drop ?n (buf q1) = map (\<lambda>r. r\<lparr>Reader := rd1\<rparr>) (drop ?n (buf q)) @ [r1]"
    by (simp add: b1)
  have "shareReader (Suc own) rd q1 =
      q1\<lparr>buf := take ?n (buf q) @ map (\<lambda>r. r\<lparr>Reader := rd\<rparr>)
        (map (\<lambda>r. r\<lparr>Reader := rd1\<rparr>) (drop ?n (buf q)) @ [r1])\<rparr>"
    by (simp only: shareReader_def len t d)
  then show ?thesis
    by (simp add: q1 shareReader_def comp_def)
qed

lemma handleLoop_fills:
  assumes "parseRequests (Suc k) rd conn = Some (reqs, rd')"
    and "length (buf q) + k = cap q"
  shows "handleLoop q own conn rd logs =
    \<lparr>progress = BlockedOnSend (last reqs),
     queue = enqueued (shareReader own rd' q) (butlast reqs) rd',
     closed = False, logged = logs\<rparr>"
  using assms
proof (induction k arbitrary: q own rd reqs)
  case 0
  from "0.prems"(1) obtain req where p: "parseRequest rd conn = (Inr req, rd')"
    and r: "reqs = [req]"
    by (auto split: prod.splits sum.splits)
  from "0.prems"(2) have "send (shareReader own rd' q) req = None"
    by (simp add: send_def length_shareReader cap_shareReader)
  with p r show ?case
    by (simp add: handleLoop.simps [of q own conn rd] enqueued_def)
next
  case (Suc k)
  from Suc.prems(1) obtain r1 rd1 reqs' where p: "parseRequest rd conn = (Inr r1, rd1)"
    and m: "parseRequests (Suc k) rd1 conn = Some (reqs', rd')" and r: "reqs = r1 # reqs'"
    by (auto simp: parseRequests.simps(2) [of "Suc k"] split: prod.splits sum.splits option.splits)
  from parseRequests_length [OF m] have ne: "reqs' \<noteq> []" by auto
  let ?q1 = "(shareReader own rd1 q)\<lparr>buf := buf (shareReader own rd1 q) @ [r1]\<rparr>"
  from Suc.prems(2) have s: "send (shareReader own rd1 q) r1 = Some ?q1"
    by (simp add: send_def length_shareReader cap_shareReader)
  from Suc.prems(2) have room: "length (buf ?q1) + k = cap ?q1"
    by (simp add: length_shareReader cap_shareReader)
  have "handleLoop q own conn rd logs = handleLoop ?q1 (Suc own) conn rd1 logs"
    using p s by (simp add: handleLoop.simps [of q own conn rd])
  also have "\<dots> = \<lparr>progress = BlockedOnSend (last reqs'),
      queue = enqueued (shareReader (Suc own) rd' ?q1) (butlast reqs') rd',
      closed = False, logged = logs\<rparr>"
    by (rule Suc.IH [OF m room])
  also have "enqueued (shareReader (Suc own) rd' ?q1) (butlast reqs') rd' =
      enqueued (shareReader own rd' q) (butlast reqs) rd'"
    using ne by (simp add: shareReader_send [OF s] r enqueued_def)
  finally show ?case using ne r by simp
qed

section \<open>The claims\<close>

text \<open>
  Claim C1. For every well-formed request (a request line with at least three tokens
  separated by single spaces, then header lines, then an empty terminator line),
  \<open>parseRequest\<close> returns a request whose method and target are the first and the second
  token of the trimmed request line, and whose header map has, for each header name, the
  value of its last occurrence, names and values trimmed (\<open>headerOf\<close>). \<open>map_of\<close> takes
  the first pair with a given name, here in the reversed list of the lines: the last
  occurrence. A line is what \<^verbatim>\<open>ReadString\<close> returns without an error: it ends with the
  newline.
\<close>

theorem parseRequest_round_trip:
  assumes "isLine rl" and "3 \<le> length (Split (TrimSpace rl) (CHR '' ''))"
    and "\<forall>h\<in>set hs. isLine h \<and> TrimSpace h \<noteq> [] \<and> CHR '':'' \<in> set h"
    and "isLine t" and "TrimSpace t = []"
    and "pending rd = rl @ concat hs @ t @ rest"
  shows "fst (parseRequest rd conn) =
    Inr \<lparr>Method = Split (TrimSpace rl) (CHR '' '') ! 0,
         URI = Split (TrimSpace rl) (CHR '' '') ! 1,
         Headers = map_of (rev (map headerOf hs)),
         Conn = conn, Reader = rd\<lparr>pending := rest\<rparr>\<rparr>"
proof -
  from assms(3) have hs: "\<forall>h\<in>set hs. isLine h \<and> TrimSpace h \<noteq> []"
    and colon: "filter (\<lambda>h. CHR '':'' \<in> set h) hs = hs"
    by (auto simp: filter_id_conv)
  show ?thesis
    by (simp add: parseRequest_lines [OF assms(1,2) hs assms(4,5,6)] fold_addHeader colon)
qed

theorem parseRequest_round_trip_witness:
  "fst (parseRequest
         \<lparr>pending = ''GET /hello HTTP/1.1'' @ CRLF @ ''Host:  example '' @ CRLF @
            ''Accept: a'' @ CRLF @ ''Host:b:c'' @ CRLF @ CRLF @ ''body'', final = EOF\<rparr> (7::nat)) =
    Inr \<lparr>Method = ''GET'', URI = ''/hello'',
         Headers = map_of [(''Host'', ''b:c''), (''Accept'', ''a''), (''Host'', ''example'')],
         Conn = 7, Reader = \<lparr>pending = ''body'', final = EOF\<rparr>\<rparr>"
proof -
  let ?rl = "''GET /hello HTTP/1.1'' @ CRLF"
  let ?h1 = "''Host:  example '' @ CRLF"
  let ?h2 = "''Accept: a'' @ CRLF"
  let ?h3 = "''Host:b:c'' @ CRLF"
  let ?rd = "\<lparr>pending = ?rl @ concat [?h1, ?h2, ?h3] @ CRLF @ ''body'', final = EOF\<rparr>"
  have rl: "isLine ?rl" by (simp add: isLine_def)
  have tokens: "Split (TrimSpace ?rl) (CHR '' '') = [''GET'', ''/hello'', ''HTTP/1.1'']"
    by code_simp
  then have three: "3 \<le> length (Split (TrimSpace ?rl) (CHR '' ''))" by simp
  have n1: "TrimSpace ?h1 \<noteq> []" by code_simp
  have n2: "TrimSpace ?h2 \<noteq> []" by code_simp
  have n3: "TrimSpace ?h3 \<noteq> []" by code_simp
  have hs: "\<forall>h\<in>set [?h1, ?h2, ?h3]. isLine h \<and> TrimSpace h \<noteq> [] \<and> CHR '':'' \<in> set h"
    using n1 n2 n3 by (simp add: isLine_def)
  have t: "isLine CRLF" by (simp add: isLine_def)
  have e: "TrimSpace CRLF = []" by code_simp
  have p: "pending ?rd = ?rl @ concat [?h1, ?h2, ?h3] @ CRLF @ ''body''" by simp
  have o1: "headerOf ?h1 = (''Host'', ''example'')" by code_simp
  have o2: "headerOf ?h2 = (''Accept'', ''a'')" by code_simp
  have o3: "headerOf ?h3 = (''Host'', ''b:c'')" by code_simp
  note parseRequest_round_trip [OF rl three hs t e p, of 7, unfolded tokens list.map o1 o2 o3]
  then show ?thesis by simp
qed

text \<open>
  Claim C2. When the first line has fewer than three tokens, \<open>parseRequest\<close> fails with
  the error "malformed request line", and \<open>handleConnection\<close> returns at once: the
  connection is closed and the job queue is as it was.
\<close>

theorem malformed_request_line_closes:
  assumes "isLine rl" and "length (Split (TrimSpace rl) (CHR '' '')) < 3"
    and "pending rd = rl @ rest"
  shows "fst (parseRequest rd conn) = Inl (Errorf ''malformed request line'') \<and>
         handleConnection s conn rd =
           \<lparr>progress = Returned, queue = jobQueue s, closed = True, logged = []\<rparr>"
  by (simp add: handleConnection_def handleLoop.simps [of _ _ conn rd]
      parseRequest_malformed [OF assms])

theorem malformed_request_line_closes_witness:
  "fst (parseRequest \<lparr>pending = ''BAD'' @ CRLF @ CRLF, final = EOF\<rparr> (7::nat)) =
     Inl (Errorf ''malformed request line'') \<and>
   handleConnection (NewServer '':8080'' () 1) (7::nat) \<lparr>pending = ''BAD'' @ CRLF @ CRLF, final = EOF\<rparr> =
     \<lparr>progress = Returned, queue = \<lparr>cap = 100, buf = []\<rparr>, closed = True, logged = []\<rparr>"
proof -
  let ?rl = "''BAD'' @ CRLF"
  let ?rd = "\<lparr>pending = ?rl @ CRLF, final = EOF\<rparr>"
  have rl: "isLine ?rl" by (simp add: isLine_def)
  have tokens: "Split (TrimSpace ?rl) (CHR '' '') = [''BAD'']" by code_simp
  then have few: "length (Split (TrimSpace ?rl) (CHR '' '')) < 3" by simp
  have p: "pending ?rd = ?rl @ CRLF" by simp
  from malformed_request_line_closes [OF rl few p, of 7 "NewServer '':8080'' () 1"]
  show ?thesis by (simp add: NewServer_def make_chan_def)
qed

text \<open>
  Claim C3. The worker sits in its handler, so nothing is taken out of the queue while
  \<open>handleConnection\<close> runs. When the queue has room for \<open>k\<close> requests (its capacity, when
  it is empty: 100 for the server that \<open>NewServer\<close> makes) and the connection delivers
  \<open>k + 1\<close>, exactly \<open>k\<close> are enqueued, in their order; the send of the next one finds the
  queue full and the goroutine is suspended at it, holding the request, the connection
  open and nothing dropped. Run again on the full queue it stays suspended. When the
  handler has returned and the worker has taken one request out, the queue has one free
  place, the send goes through and the loop reads on.
\<close>

theorem full_queue_blocks_the_sender:
  assumes "parseRequests (Suc k) rd conn = Some (reqs, rd')"
    and "length (buf (jobQueue s)) + k = cap (jobQueue s)"
    and "0 < cap (jobQueue s)"
  shows "let full = enqueued (jobQueue s) (butlast reqs) rd';
             drained = full\<lparr>buf := tl (buf full)\<rparr>;
             own = min k (length (buf drained))
         in length (butlast reqs) = k \<and>
            handleConnection s conn rd =
              \<lparr>progress = BlockedOnSend (last reqs), queue = full, closed = False, logged = []\<rparr> \<and>
            length (buf full) = cap full \<and>
            resume full k conn (last reqs) [] =
              \<lparr>progress = BlockedOnSend (last reqs), queue = full, closed = False, logged = []\<rparr> \<and>
            workerReceive (s\<lparr>jobQueue := full\<rparr>) = Some (hd (buf full), s\<lparr>jobQueue := drained\<rparr>) \<and>
            length (buf drained) = cap drained - 1 \<and>
            resume drained own conn (last reqs) [] =
              handleLoop (drained\<lparr>buf := buf drained @ [last reqs]\<rparr>) (Suc own) conn rd' []"
proof -
  let ?full = "enqueued (jobQueue s) (butlast reqs) rd'"
  let ?drained = "?full\<lparr>buf := tl (buf ?full)\<rparr>"
  from parseRequests_length [OF assms(1)] have n: "length reqs = Suc k" .
  then have k: "length (butlast reqs) = k" by simp
  have run: "handleConnection s conn rd =
      \<lparr>progress = BlockedOnSend (last reqs), queue = ?full, closed = False, logged = []\<rparr>"
    using handleLoop_fills [OF assms(1,2), of 0 "[]"] by (simp add: handleConnection_def)
  have len: "length (buf ?full) = cap ?full"
    using assms(2) k by (simp add: enqueued_def)
  then have blocked: "send ?full (last reqs) = None"
    by (simp add: send_def)
  have "cap ?full = cap (jobQueue s)" by (simp add: enqueued_def)
  with len assms(3) have "0 < length (buf ?full)" by simp
  then have ne: "buf ?full \<noteq> []" by simp
  then have recv: "recv ?full = Some (hd (buf ?full), ?drained)"
    by (cases "buf ?full") (simp_all add: recv_def)
  from len ne have dl: "length (buf ?drained) = cap ?drained - 1"
    by simp
  with assms(3) have room: "send ?drained (last reqs) = Some (?drained\<lparr>buf := buf ?drained @ [last reqs]\<rparr>)"
    by (simp add: send_def enqueued_def)
  have rdr: "Reader (last reqs) = rd'"
    by (rule parseRequests_last_Reader [OF assms(1)])
  show ?thesis
    unfolding Let_def
    using k run len dl
    by (simp add: resume_def blocked room rdr workerReceive_def recv)
qed

theorem full_queue_blocks_the_sender_witness:
  "handleConnection smallServer 7
     \<lparr>pending = ''GET /a HTTP/1.1'' @ CRLF @ CRLF @ ''GET /b HTTP/1.1'' @ CRLF @ CRLF @
        ''GET /c HTTP/1.1'' @ CRLF @ CRLF, final = EOF\<rparr> =
     \<lparr>progress = BlockedOnSend (GET ''/c''), queue = \<lparr>cap = 2, buf = [GET ''/a'', GET ''/b'']\<rparr>,
      closed = False, logged = []\<rparr> \<and>
   resume \<lparr>cap = 2, buf = [GET ''/a'', GET ''/b'']\<rparr> 2 7 (GET ''/c'') [] =
     \<lparr>progress = BlockedOnSend (GET ''/c''), queue = \<lparr>cap = 2, buf = [GET ''/a'', GET ''/b'']\<rparr>,
      closed = False, logged = []\<rparr> \<and>
   workerReceive (smallServer\<lparr>jobQueue := \<lparr>cap = 2, buf = [GET ''/a'', GET ''/b'']\<rparr>\<rparr>) =
     Some (GET ''/a'', smallServer\<lparr>jobQueue := \<lparr>cap = 2, buf = [GET ''/b'']\<rparr>\<rparr>) \<and>
   resume \<lparr>cap = 2, buf = [GET ''/b'']\<rparr> 1 7 (GET ''/c'') [] =
     \<lparr>progress = Returned, queue = \<lparr>cap = 2, buf = [GET ''/b'', GET ''/c'']\<rparr>,
      closed = True, logged = []\<rparr>"
proof -
  let ?a = "''GET /a HTTP/1.1'' @ CRLF"
  let ?b = "''GET /b HTTP/1.1'' @ CRLF"
  let ?c = "''GET /c HTTP/1.1'' @ CRLF"
  let ?rd3 = "\<lparr>pending = [], final = EOF\<rparr>"
  let ?rd2 = "\<lparr>pending = ?c @ concat [] @ CRLF @ [], final = EOF\<rparr>"
  let ?rd1 = "\<lparr>pending = ?b @ concat [] @ CRLF @ pending ?rd2, final = EOF\<rparr>"
  let ?rd0 = "\<lparr>pending = ?a @ concat [] @ CRLF @ pending ?rd1, final = EOF\<rparr>"
  have t: "isLine CRLF" by (simp add: isLine_def)
  have e: "TrimSpace CRLF = []" by code_simp
  have hs: "\<forall>h\<in>set []. isLine h \<and> TrimSpace h \<noteq> []" by simp
  have la: "isLine ?a" and lb: "isLine ?b" and lc: "isLine ?c" by (simp_all add: isLine_def)
  have ta: "Split (TrimSpace ?a) (CHR '' '') = [''GET'', ''/a'', ''HTTP/1.1'']" by code_simp
  have tb: "Split (TrimSpace ?b) (CHR '' '') = [''GET'', ''/b'', ''HTTP/1.1'']" by code_simp
  have tc: "Split (TrimSpace ?c) (CHR '' '') = [''GET'', ''/c'', ''HTTP/1.1'']" by code_simp
  have 3: "3 \<le> length (Split (TrimSpace ?a) (CHR '' ''))"
    "3 \<le> length (Split (TrimSpace ?b) (CHR '' ''))"
    "3 \<le> length (Split (TrimSpace ?c) (CHR '' ''))"
    unfolding ta tb tc by simp_all
  have pa: "parseRequest ?rd0 (7::nat) = (Inr ((GET ''/a'')\<lparr>Reader := ?rd1\<rparr>), ?rd1)"
    using parseRequest_lines [OF la 3(1) hs t e, of ?rd0 "pending ?rd1" 7, unfolded ta]
    by simp
  have pb: "parseRequest ?rd1 (7::nat) = (Inr ((GET ''/b'')\<lparr>Reader := ?rd2\<rparr>), ?rd2)"
    using parseRequest_lines [OF lb 3(2) hs t e, of ?rd1 "pending ?rd2" 7, unfolded tb]
    by simp
  have pc: "parseRequest ?rd2 (7::nat) = (Inr (GET ''/c''), ?rd3)"
    using parseRequest_lines [OF lc 3(3) hs t e, of ?rd2 "[]" 7, unfolded tc]
    by simp
  have many: "parseRequests (Suc 2) ?rd0 (7::nat) =
      Some ([(GET ''/a'')\<lparr>Reader := ?rd1\<rparr>, (GET ''/b'')\<lparr>Reader := ?rd2\<rparr>, GET ''/c''], ?rd3)"
    by (simp only: numeral_2_eq_2 parseRequests.simps pa pb pc prod.case sum.case option.case)
  have room: "length (buf (jobQueue smallServer)) + 2 = cap (jobQueue smallServer)"
    by (simp add: make_chan_def)
  have pos: "0 < cap (jobQueue smallServer)"
    by (simp add: make_chan_def)
  have last_read: "handleLoop q own (7::nat) ?rd3 [] =
      \<lparr>progress = Returned, queue = shareReader own ?rd3 q, closed = True, logged = []\<rparr>" for q own
    by (simp add: handleLoop.simps [of q own 7 ?rd3] parseRequest_def ReadString_def)
  note full_queue_blocks_the_sender [OF many room pos, unfolded Let_def]
  then show ?thesis
    by (simp add: enqueued_def make_chan_def last_read shareReader_def)
qed





text \<open>
  Claim C6. An error of \<open>parseRequest\<close> ends the loop of \<open>handleConnection\<close> and closes
  the connection, and it is logged exactly when it is not \<open>EOF\<close>. The code does the
  first and not the second. Here it is evaluated on a connection that is reset in the
  middle of the request line: the error of \<open>parseRequest\<close> is not \<open>EOF\<close>, the connection
  is closed and \<open>handleConnection\<close> has returned, and nothing is logged, because the
  branch that tests for \<open>EOF\<close> is empty in the source. By \<open>handleLoop_logged\<close> nothing
  is logged on any input.
\<close>

theorem read_error_not_logged:
  "fst (parseRequest \<lparr>pending = ''GET / HTTP/1.1'', final = ConnError ''connection reset by peer''\<rparr> (7::nat)) =
     Inl (ConnError ''connection reset by peer'') \<and>
   handleConnection (NewServer '':8080'' () 1) (7::nat)
       \<lparr>pending = ''GET / HTTP/1.1'', final = ConnError ''connection reset by peer''\<rparr> =
     \<lparr>progress = Returned, queue = \<lparr>cap = 100, buf = []\<rparr>, closed = True, logged = []\<rparr>"
  by (simp add: handleConnection_def handleLoop.simps parseRequest_def ReadString_def
      NewServer_def make_chan_def)

text \<open>
  Claim C7. When \<^verbatim>\<open>net.Listen\<close> fails, \<open>Start\<close> returns that error: no worker is started,
  no connection is accepted, nothing is printed, and the server is as it was.
\<close>

theorem listen_failure_returns_at_once:
  "Start s (Some err) accepts =
     (s, \<lparr>returned = Some err, tlsListener = False, workers = [], readers = [], printed = []\<rparr>)"
  by (simp add: Start_def)

text \<open>
  Claim C8. \<open>Write\<close> hands the bytes as they are to the \<^verbatim>\<open>Write\<close> of its connection and
  returns what that returns, for every connection; for a connection that sends all the
  bytes, and for one that fails after \<open>n\<close> bytes, this is the count, the error and the
  bytes on the wire of that connection.
\<close>

theorem Write_is_the_connection_write:
  "Write w data net = ConnWrite (RWConn w) data net \<and>
   Write \<lparr>RWConn = \<lparr>ConnWrite = (\<lambda>d wire. ((length d, None), wire @ d))\<rparr>\<rparr> data wire =
     ((length data, None), wire @ data) \<and>
   Write \<lparr>RWConn = \<lparr>ConnWrite = (\<lambda>d wire. ((n, Some e), wire @ take n d))\<rparr>\<rparr> data wire =
     ((n, Some e), wire @ take n data)"
  by (simp add: Write_def)

text \<open>
  Claim C9. \<open>NewServer\<close> checks nothing: for every worker count, zero and negative ones
  too, it returns a server with that worker count and an empty job queue of capacity 100.
\<close>

theorem NewServer_does_not_validate:
  "workerCount (NewServer addr handler n) = n \<and>
   jobQueue (NewServer addr handler n) = \<lparr>cap = 100, buf = []\<rparr> \<and>
   jobQueue (NewServer addr handler 0) = \<lparr>cap = 100, buf = []\<rparr> \<and>
   jobQueue (NewServer addr handler (- 1)) = \<lparr>cap = 100, buf = []\<rparr>"
  by (simp add: NewServer_def make_chan_def)

text \<open>
  Claim C10. The request line is split at every single space, so two spaces after the
  method give an empty second token: the line is accepted with the empty string as its
  target, and the tokens after the second are not looked at.
\<close>

theorem double_space_gives_empty_target:
  assumes "isLine rl" and "TrimSpace rl = m @ ''  '' @ x" and "CHR '' '' \<notin> set m"
    and "\<forall>h\<in>set hs. isLine h \<and> TrimSpace h \<noteq> []"
    and "isLine t" and "TrimSpace t = []"
    and "pending rd = rl @ concat hs @ t @ rest"
  shows "Split (TrimSpace rl) (CHR '' '') = m # [] # Split x (CHR '' '') \<and>
         (\<exists>req. fst (parseRequest rd conn) = Inr req \<and> Method req = m \<and> URI req = [])"
proof -
  have "Split (m @ CHR '' '' # (CHR '' '' # x)) (CHR '' '') = m # Split (CHR '' '' # x) (CHR '' '')"
    by (rule Split_first [OF assms(3)])
  with assms(2) have tokens: "Split (TrimSpace rl) (CHR '' '') = m # [] # Split x (CHR '' '')"
    by simp
  have "Split x (CHR '' '') \<noteq> []"
    by (cases x) (auto split: list.splits)
  with tokens have three: "3 \<le> length (Split (TrimSpace rl) (CHR '' ''))"
    by (cases "Split x (CHR '' '')") simp_all
  show ?thesis
    by (simp add: parseRequest_lines [OF assms(1) three assms(4,5,6,7)] tokens)
qed

theorem double_space_gives_empty_target_witness:
  "Split (TrimSpace (''GET  /x HTTP/1.1'' @ CRLF)) (CHR '' '') = [''GET'', [], ''/x'', ''HTTP/1.1''] \<and>
   (\<exists>req. fst (parseRequest \<lparr>pending = ''GET  /x HTTP/1.1'' @ CRLF @ CRLF, final = EOF\<rparr> (7::nat)) = Inr req \<and>
       Method req = ''GET'' \<and> URI req = [])"
proof -
  let ?rl = "''GET  /x HTTP/1.1'' @ CRLF"
  let ?rd = "\<lparr>pending = ?rl @ concat [] @ CRLF @ [], final = EOF\<rparr>"
  have rl: "isLine ?rl" by (simp add: isLine_def)
  have tr: "TrimSpace ?rl = ''GET'' @ ''  '' @ ''/x HTTP/1.1''" by code_simp
  have m: "CHR '' '' \<notin> set ''GET''" by simp
  have hs: "\<forall>h\<in>set []. isLine h \<and> TrimSpace h \<noteq> []" by simp
  have t: "isLine CRLF" by (simp add: isLine_def)
  have e: "TrimSpace CRLF = []" by code_simp
  have p: "pending ?rd = ?rl @ concat [] @ CRLF @ []" by simp
  have sx: "Split ''/x HTTP/1.1'' (CHR '' '') = [''/x'', ''HTTP/1.1'']" by code_simp
  note double_space_gives_empty_target [OF rl tr m hs t e p, of 7, unfolded sx]
  then show ?thesis by simp
qed

end
